theory Spec2Isabelle
  imports Main "HOL-Library.Word" "HOL-Library.AList"
begin

section \<open>Platform, input stream and heap\<close>

text \<open>
  The library reads standard input with the raw \<^verbatim>\<open>read\<close> system call and keeps the
  line in a \<^verbatim>\<open>malloc\<close>ed buffer. The model makes both explicit: the world holds the
  unread bytes of standard input, the behaviour of the coming system calls and
  allocations, and the live heap blocks.

  Two things are fixed by the platform and the build, not by the source text:
  the chunk size \<^verbatim>\<open>STDI_READ_LINE_BUFFER_SIZE\<close> (250 unless overridden) and whether plain
  \<^verbatim>\<open>char\<close> is signed (x86-64 Linux) or unsigned (AArch64 Linux).
\<close>

type_synonym byte = "8 word"

record config =
  chunk :: nat
  char_signed :: bool

text \<open>The build the source ships with: 250-byte chunks; \<^verbatim>\<open>char\<close> signed as on x86-64.\<close>

definition default_config :: config where
  "default_config = \<lparr>chunk = 250, char_signed = True\<rparr>"

text \<open>
  How the next \<^verbatim>\<open>read\<close> behaves: it fails, or it is a short read that hands over at most
  \<open>k + 1\<close> bytes (\<open>granted\<close> below). When the list of outcomes is used up, a read
  hands over everything that was asked for and is available.
\<close>

datatype read_outcome = Fails | Short nat

datatype event = Malloc nat | Realloc nat | Free | Read nat

record world =
  stdin :: "byte list"
  reads :: "read_outcome list"
  allocs :: "bool list"
  uninit :: "nat \<Rightarrow> byte"
  heap :: "(nat \<times> byte list) list"
  trace :: "event list"

text \<open>
  \<^verbatim>\<open>#define EOF (-1)\<close>. A \<^verbatim>\<open>char\<close> compared with it is promoted to \<^verbatim>\<open>int\<close> first, by sign
  extension when \<^verbatim>\<open>char\<close> is signed and by zero extension otherwise.
\<close>

definition EOF :: int where
  "EOF = - 1"

definition char_to_int :: "config \<Rightarrow> byte \<Rightarrow> int" where
  "char_to_int cfg c = (if char_signed cfg then sint c else uint c)"

text \<open>
  Subtraction of two \<^verbatim>\<open>size_t\<close> values on an LP64 platform wraps around modulo \<open>2 ^ 64\<close>.
  The other counters only grow with the allocation, which stays far below \<open>2 ^ 64\<close>, and
  are natural numbers.
\<close>

definition size_sub :: "nat \<Rightarrow> nat \<Rightarrow> nat" where
  "size_sub a b = nat ((int a - int b) mod 2 ^ 64)"

subsection \<open>The raw read\<close>

text \<open>
  \<^verbatim>\<open>fread_line(buffer, size)\<close> is \<^verbatim>\<open>syscall(SYS_read, STDIN_FILENO, buffer, size)\<close>. The model
  returns the system call's result together with the bytes the kernel stored at
  \<^verbatim>\<open>buffer\<close>; the caller, which knows what \<^verbatim>\<open>buffer\<close> points to, puts them there.
  A read returns 0 only at the end of the stream or when asked for nothing.
\<close>

definition read_fails :: "world \<Rightarrow> bool" where
  "read_fails w = (case reads w of [] \<Rightarrow> False | r # _ \<Rightarrow> r = Fails)"

definition granted :: "nat \<Rightarrow> world \<Rightarrow> nat" where
  "granted size' w = (case reads w of Short k # _ \<Rightarrow> min size' (Suc k) | _ \<Rightarrow> size')"

definition fread_line :: "nat \<Rightarrow> world \<Rightarrow> int \<times> byte list \<times> world" where
  "fread_line size' w =
     (let w0 = w\<lparr>reads := tl (reads w), trace := trace w @ [Read size']\<rparr> in
      if read_fails w then (- 1, [], w0)
      else (let d = take (granted size' w) (stdin w)
            in (int (length d), d, w0\<lparr>stdin := drop (length d) (stdin w)\<rparr>)))"

subsection \<open>The allocator\<close>

text \<open>
  Live blocks are kept by address. A new block gets an address no live block has and
  holds indeterminate bytes (taken from \<open>uninit\<close>). An allocation fails when the
  world says so; when the list is used up, allocations succeed.
  Using a pointer that is not a live block, or an index outside its block, is
  undefined behaviour in C: the operations return \<open>None\<close> there.
\<close>

definition fresh :: "(nat \<times> byte list) list \<Rightarrow> nat" where
  "fresh h = Suc (foldr max (map fst h) 0)"

definition alloc_fails :: "world \<Rightarrow> bool" where
  "alloc_fails w = (case allocs w of [] \<Rightarrow> False | ok # _ \<Rightarrow> \<not> ok)"

definition malloc :: "nat \<Rightarrow> world \<Rightarrow> nat option \<times> world" where
  "malloc n w =
     (let w0 = w\<lparr>allocs := tl (allocs w), trace := trace w @ [Malloc n]\<rparr> in
      if alloc_fails w then (None, w0)
      else (let p = fresh (heap w)
            in (Some p, w0\<lparr>heap := (p, map (uninit w) [0..<n]) # heap w\<rparr>)))"

definition realloc :: "nat \<Rightarrow> nat \<Rightarrow> world \<Rightarrow> (nat option \<times> world) option" where
  "realloc p n w =
     (case map_of (heap w) p of
        None \<Rightarrow> None
      | Some blk \<Rightarrow>
          (let w0 = w\<lparr>allocs := tl (allocs w), trace := trace w @ [Realloc n]\<rparr> in
           if alloc_fails w then Some (None, w0)
           else (let h = AList.delete p (heap w);
                     q = fresh h
                 in Some (Some q,
                      w0\<lparr>heap := (q, take n blk @ map (uninit w) [length blk..<n]) # h\<rparr>))))"

definition free :: "nat \<Rightarrow> world \<Rightarrow> world option" where
  "free p w =
     (case map_of (heap w) p of
        None \<Rightarrow> None
      | Some blk \<Rightarrow> Some (w\<lparr>heap := AList.delete p (heap w), trace := trace w @ [Free]\<rparr>))"

definition load :: "nat \<Rightarrow> nat \<Rightarrow> world \<Rightarrow> byte option" where
  "load p i w =
     (case map_of (heap w) p of
        None \<Rightarrow> None
      | Some blk \<Rightarrow> if i < length blk then Some (blk ! i) else None)"

definition store :: "nat \<Rightarrow> nat \<Rightarrow> byte list \<Rightarrow> world \<Rightarrow> world option" where
  "store p i bs w =
     (case map_of (heap w) p of
        None \<Rightarrow> None
      | Some blk \<Rightarrow>
          if i + length bs \<le> length blk
          then Some (w\<lparr>heap :=
                 AList.update p (take i blk @ bs @ drop (i + length bs) blk) (heap w)\<rparr>)
          else None)"

section \<open>The line readers\<close>

text \<open>
  Both readers keep the same local variables: \<^verbatim>\<open>buffer\<close>, \<^verbatim>\<open>written\<close> and \<^verbatim>\<open>length\<close>
  (\<open>length'\<close> here). A call ends by returning a pointer (\<open>None\<close> is \<^verbatim>\<open>NULL\<close>) in some
  world, or it runs into undefined behaviour by touching memory outside a live block
  (\<open>Fault\<close>).
\<close>

record loop_state =
  buffer :: nat
  written :: nat
  length' :: nat
  env :: world

datatype result = Return "nat option" world | Fault

text \<open>
  \<^verbatim>\<open>while (TRUE) { ... }\<close>: the body either goes round again with new locals or leaves
  the function. A loop that never leaves has no result.
\<close>

partial_function (option) while_loop :: "('s \<Rightarrow> 's + 'r) \<Rightarrow> 's \<Rightarrow> 'r option" where
  "while_loop body s = (case body s of Inl s' \<Rightarrow> while_loop body s' | Inr r \<Rightarrow> Some r)"

declare while_loop.simps [code]

text \<open>The locals after at most \<open>n\<close> rounds of the loop, or the result if it left earlier.\<close>

fun iterations :: "('s \<Rightarrow> 's + 'r) \<Rightarrow> nat \<Rightarrow> 's \<Rightarrow> 's + 'r" where
  "iterations body 0 s = Inl s"
| "iterations body (Suc n) s =
     (case body s of Inl s' \<Rightarrow> iterations body n s' | Inr r \<Rightarrow> Inr r)"

text \<open>
  Both functions start alike: allocate \<^verbatim>\<open>STDI_READ_LINE_BUFFER_SIZE + 1\<close> bytes, return
  \<^verbatim>\<open>NULL\<close> if that fails, and set \<^verbatim>\<open>written\<close> and \<^verbatim>\<open>length\<close> to 0.
\<close>

definition start_line :: "config \<Rightarrow> world \<Rightarrow> loop_state + result" where
  "start_line cfg w =
     (case malloc (chunk cfg + 1) w of
        (None, w') \<Rightarrow> Inr (Return None w')
      | (Some p, w') \<Rightarrow> Inl \<lparr>buffer = p, written = 0, length' = 0, env = w'\<rparr>)"

text \<open>\<^verbatim>\<open>free(buffer); return NULL;\<close>\<close>

definition give_up :: "nat \<Rightarrow> world \<Rightarrow> loop_state + result" where
  "give_up p w = (case free p w of None \<Rightarrow> Inr Fault | Some w' \<Rightarrow> Inr (Return None w'))"

text \<open>\<^verbatim>\<open>buffer[i] = '\0'; return buffer;\<close>\<close>

definition terminate_at :: "nat \<Rightarrow> nat \<Rightarrow> world \<Rightarrow> loop_state + result" where
  "terminate_at p i w =
     (case store p i [0] w of None \<Rightarrow> Inr Fault | Some w' \<Rightarrow> Inr (Return (Some p) w'))"

text \<open>
  The first block of both loops:
  \<^verbatim>\<open>if (written == SIZE) { new_buffer = realloc(buffer, SIZE + length + 1); ... }\<close>
\<close>

definition grow :: "config \<Rightarrow> loop_state \<Rightarrow> loop_state + result" where
  "grow cfg s =
     (if written s = chunk cfg then
        (case realloc (buffer s) (chunk cfg + length' s + 1) (env s) of
           None \<Rightarrow> Inr Fault
         | Some (None, w) \<Rightarrow> give_up (buffer s) w
         | Some (Some new_buffer, w) \<Rightarrow>
             Inl (s\<lparr>buffer := new_buffer, written := 0, env := w\<rparr>))
      else Inl s)"

subsection \<open>\<^verbatim>\<open>raw_read_line\<close>\<close>

text \<open>
  One byte per system call, into the local \<^verbatim>\<open>char c\<close>. The variable is not
  initialised, and the result of the read is only compared with \<open>-1\<close>: after a read of
  zero bytes \<^verbatim>\<open>c\<close> still holds whatever the stack slot held, which the world supplies.
\<close>

text \<open>\<^verbatim>\<open>c == '\0' || c == EOF\<close>\<close>

definition raw_stop :: "config \<Rightarrow> byte \<Rightarrow> bool" where
  "raw_stop cfg c \<longleftrightarrow> c = 0 \<or> char_to_int cfg c = EOF"

definition raw_read_line_body :: "config \<Rightarrow> loop_state \<Rightarrow> loop_state + result" where
  "raw_read_line_body cfg s0 =
     (case grow cfg s0 of
        Inr r \<Rightarrow> Inr r
      | Inl s \<Rightarrow>
          (let (bytes_read, d, w) = fread_line 1 (env s);
               c = (case d of [] \<Rightarrow> uninit w (length' s) | b # _ \<Rightarrow> b)
           in if bytes_read = - 1 then give_up (buffer s) w
              else if raw_stop cfg c then terminate_at (buffer s) (length' s) w
              else (case store (buffer s) (length' s) [c] w of
                      None \<Rightarrow> Inr Fault
                    | Some w' \<Rightarrow>
                        Inl (s\<lparr>written := written s + 1, length' := length' s + 1, env := w'\<rparr>))))"

definition raw_read_line :: "config \<Rightarrow> world \<Rightarrow> result option" where
  "raw_read_line cfg w =
     (case start_line cfg w of
        Inr r \<Rightarrow> Some r
      | Inl s \<Rightarrow> while_loop (raw_read_line_body cfg) s)"

subsection \<open>\<^verbatim>\<open>read_line\<close>\<close>

text \<open>
  The second block of the loop, \<^verbatim>\<open>if (written == 0) { ... }\<close>: one read of
  \<^verbatim>\<open>SIZE - length\<close> bytes to \<^verbatim>\<open>buffer + length\<close>.
\<close>

definition fill :: "config \<Rightarrow> loop_state \<Rightarrow> loop_state + result" where
  "fill cfg s =
     (if written s = 0 then
        (let (bytes_read, d, w) = fread_line (size_sub (chunk cfg) (length' s)) (env s)
         in if bytes_read = - 1 then give_up (buffer s) w
            else (case store (buffer s) (length' s) d w of
                    None \<Rightarrow> Inr Fault
                  | Some w' \<Rightarrow>
                      if bytes_read = 0 then terminate_at (buffer s) (length' s) w'
                      else Inl (s\<lparr>written := written s + nat bytes_read,
                                  length' := length' s + nat bytes_read, env := w'\<rparr>)))
      else Inl s)"

text \<open>
  The third block:
  \<^verbatim>\<open>if (length > 0 && (buffer[length - 1] == EOF || buffer[length - 1] == '\n'))\<close>,
  with the test on the byte first.
\<close>

definition line_stop :: "config \<Rightarrow> byte \<Rightarrow> bool" where
  "line_stop cfg c \<longleftrightarrow> char_to_int cfg c = EOF \<or> c = 10"

definition line_end :: "config \<Rightarrow> loop_state \<Rightarrow> loop_state + result" where
  "line_end cfg s =
     (if length' s > 0 then
        (case load (buffer s) (length' s - 1) (env s) of
           None \<Rightarrow> Inr Fault
         | Some c \<Rightarrow>
             if line_stop cfg c then terminate_at (buffer s) (length' s - 1) (env s)
             else Inl s)
      else Inl s)"

definition read_line_body :: "config \<Rightarrow> loop_state \<Rightarrow> loop_state + result" where
  "read_line_body cfg s0 =
     (case grow cfg s0 of
        Inr r \<Rightarrow> Inr r
      | Inl s1 \<Rightarrow> (case fill cfg s1 of Inr r \<Rightarrow> Inr r | Inl s2 \<Rightarrow> line_end cfg s2))"

definition read_line :: "config \<Rightarrow> world \<Rightarrow> result option" where
  "read_line cfg w =
     (case start_line cfg w of
        Inr r \<Rightarrow> Some r
      | Inl s \<Rightarrow> while_loop (read_line_body cfg) s)"

subsection \<open>\<^verbatim>\<open>read_char\<close>\<close>

definition read_char :: "world \<Rightarrow> byte \<times> world" where
  "read_char w =
     (let (bytes_read, d, w') = fread_line 1 w
      in if bytes_read = 1 then (hd d, w') else (0, w'))"

text \<open>Calling \<^verbatim>\<open>read_char\<close> \<open>n\<close> times in a row, collecting what it returns.\<close>

fun read_chars :: "nat \<Rightarrow> world \<Rightarrow> byte list \<times> world" where
  "read_chars 0 w = ([], w)"
| "read_chars (Suc n) w =
     (let (c, w') = read_char w; (cs, w'') = read_chars n w' in (c # cs, w''))"

section \<open>Vocabulary of the properties\<close>

subsection \<open>Worlds and what a call returned\<close>

text \<open>
  A world in which nothing goes wrong: the given bytes wait on standard input, followed
  by the end of the stream; every read hands over all it can, every allocation
  succeeds, indeterminate memory reads as \<open>junk\<close>, and no block is live.
\<close>

definition calm :: "byte \<Rightarrow> byte list \<Rightarrow> world" where
  "calm junk bs =
     \<lparr>stdin = bs, reads = [], allocs = [], uninit = (\<lambda>_. junk), heap = [], trace = []\<rparr>"

definition bytes_of :: "string \<Rightarrow> byte list" where
  "bytes_of s = map (\<lambda>c. of_nat (of_char c)) s"

text \<open>The text a \<^verbatim>\<open>char*\<close> denotes: the bytes of its block before the first null byte.\<close>

definition c_string :: "byte list \<Rightarrow> byte list" where
  "c_string blk = takeWhile (\<lambda>b. b \<noteq> 0) blk"

definition line_of :: "result \<Rightarrow> byte list option" where
  "line_of r =
     (case r of
        Return (Some p) w \<Rightarrow> map_option c_string (map_of (heap w) p)
      | _ \<Rightarrow> None)"

definition world_of :: "result \<Rightarrow> world option" where
  "world_of r = (case r of Return p w \<Rightarrow> Some w | Fault \<Rightarrow> None)"

text \<open>
  The same for a call that may not return: the line it returned, the whole block behind
  the returned pointer, the world it left, and whether it returned \<^verbatim>\<open>NULL\<close>.
\<close>

definition returned_line :: "result option \<Rightarrow> byte list option" where
  "returned_line x = (case x of None \<Rightarrow> None | Some r \<Rightarrow> line_of r)"

definition returned_block :: "result option \<Rightarrow> byte list option" where
  "returned_block x =
     (case x of Some (Return (Some p) w) \<Rightarrow> map_of (heap w) p | _ \<Rightarrow> None)"

definition final_world :: "result option \<Rightarrow> world option" where
  "final_world x = (case x of None \<Rightarrow> None | Some r \<Rightarrow> world_of r)"


text \<open>What a trace says: how many reallocations, and the sizes the reads asked for.\<close>

fun realloc_count :: "event list \<Rightarrow> nat" where
  "realloc_count [] = 0"
| "realloc_count (Realloc n # es) = Suc (realloc_count es)"
| "realloc_count (e # es) = realloc_count es"

fun read_sizes :: "event list \<Rightarrow> nat list" where
  "read_sizes [] = []"
| "read_sizes (Read n # es) = n # read_sizes es"
| "read_sizes (e # es) = read_sizes es"

subsection \<open>The buffer during a call\<close>

text \<open>
  The block \<^verbatim>\<open>buffer\<close> points to and its size, the capacity of the buffer. A call owns
  its buffer when the heap is the heap the call started in plus that one block.
\<close>

definition block :: "loop_state \<Rightarrow> byte list" where
  "block s = (case map_of (heap (env s)) (buffer s) of None \<Rightarrow> [] | Some blk \<Rightarrow> blk)"

definition capacity :: "loop_state \<Rightarrow> nat" where
  "capacity s = length (block s)"

definition owns :: "(nat \<times> byte list) list \<Rightarrow> loop_state \<Rightarrow> bool" where
  "owns h0 s \<longleftrightarrow> buffer s \<notin> fst ` set h0 \<and> heap (env s) = (buffer s, block s) # h0"

text \<open>
  A result that leaves the heap tidy: no undefined behaviour; with \<^verbatim>\<open>NULL\<close> the heap is
  the one the call started in; with a pointer it is that heap plus the returned block.
\<close>

definition clean :: "(nat \<times> byte list) list \<Rightarrow> result \<Rightarrow> bool" where
  "clean h0 r =
     (case r of
        Fault \<Rightarrow> False
      | Return None w \<Rightarrow> heap w = h0
      | Return (Some p) w \<Rightarrow>
          p \<notin> fst ` set h0 \<and> map fst (heap w) = p # map fst h0 \<and> tl (heap w) = h0)"

text \<open>The locals after a successful \<^verbatim>\<open>realloc\<close> in a call that owns its buffer.\<close>

definition grown :: "config \<Rightarrow> (nat \<times> byte list) list \<Rightarrow> loop_state \<Rightarrow> loop_state" where
  "grown cfg h0 s =
     s\<lparr>buffer := fresh h0, written := 0,
       env := (env s)\<lparr>allocs := tl (allocs (env s)),
                trace := trace (env s) @ [Realloc (chunk cfg + length' s + 1)],
                heap := (fresh h0, take (chunk cfg + length' s + 1) (block s)
                          @ map (uninit (env s)) [length (block s)..<chunk cfg + length' s + 1]) # h0\<rparr>\<rparr>"

text \<open>
  What holds at the head of each loop. In \<^verbatim>\<open>read_line\<close> a read happens only while
  \<^verbatim>\<open>written\<close> is 0, so \<^verbatim>\<open>written\<close> and \<^verbatim>\<open>length\<close> agree and never pass one chunk. In
  \<^verbatim>\<open>raw_read_line\<close> the capacity is one chunk and a terminator beyond the length at the
  last reallocation.
\<close>

definition rl_inv :: "config \<Rightarrow> (nat \<times> byte list) list \<Rightarrow> loop_state \<Rightarrow> bool" where
  "rl_inv cfg h0 s \<longleftrightarrow>
     owns h0 s \<and> written s = length' s \<and> length' s \<le> chunk cfg \<and> capacity s = chunk cfg + 1"

definition rrl_inv :: "config \<Rightarrow> (nat \<times> byte list) list \<Rightarrow> loop_state \<Rightarrow> bool" where
  "rrl_inv cfg h0 s \<longleftrightarrow>
     owns h0 s \<and> written s \<le> chunk cfg \<and> written s \<le> length' s
     \<and> capacity s = length' s - written s + chunk cfg + 1"

text \<open>
  A call after at most \<open>n\<close> rounds of its loop: still running with some locals, or
  finished with a result.
\<close>

definition read_line_progress :: "config \<Rightarrow> nat \<Rightarrow> world \<Rightarrow> loop_state + result" where
  "read_line_progress cfg n w =
     (case start_line cfg w of Inr r \<Rightarrow> Inr r | Inl s \<Rightarrow> iterations (read_line_body cfg) n s)"

definition raw_read_line_progress :: "config \<Rightarrow> nat \<Rightarrow> world \<Rightarrow> loop_state + result" where
  "raw_read_line_progress cfg n w =
     (case start_line cfg w of Inr r \<Rightarrow> Inr r | Inl s \<Rightarrow> iterations (raw_read_line_body cfg) n s)"

text \<open>
  The buffer has room for the terminator; for a finished call, no access left its block.
\<close>

definition has_room :: "loop_state + result \<Rightarrow> bool" where
  "has_room x =
     (case x of
        Inl s \<Rightarrow> length' s + 1 \<le> capacity s
      | Inr Fault \<Rightarrow> False
      | Inr (Return p w) \<Rightarrow> True)"

section \<open>Loops\<close>

lemma while_loop_continue: "body s = Inl s' \<Longrightarrow> while_loop body s = while_loop body s'"
  by (subst while_loop.simps) simp

lemma while_loop_leave: "body s = Inr r \<Longrightarrow> while_loop body s = Some r"
  by (subst while_loop.simps) simp

text \<open>
  Partial correctness of a loop from an invariant of its body.
\<close>

lemma while_loop_rule:
  assumes run: "while_loop body s = Some r"
    and init: "I s"
    and keep: "\<And>s s'. I s \<Longrightarrow> body s = Inl s' \<Longrightarrow> I s'"
    and leave: "\<And>s r. I s \<Longrightarrow> body s = Inr r \<Longrightarrow> Q r"
  shows "Q r"
proof -
  have "body = body \<longrightarrow> I s \<longrightarrow> Q r"
  proof (rule while_loop.raw_induct
      [where P = "\<lambda>b s r. b = body \<longrightarrow> I s \<longrightarrow> Q r", OF _ run])
    fix loop b s r
    assume ih: "\<And>b s r. loop b s = Some r \<Longrightarrow> b = body \<longrightarrow> I s \<longrightarrow> Q r"
      and unfolded: "(case b s of Inl s' \<Rightarrow> loop b s' | Inr r \<Rightarrow> Some r) = Some r"
    show "b = body \<longrightarrow> I s \<longrightarrow> Q r"
    proof (intro impI)
      assume b: "b = body" and s: "I s"
      show "Q r"
      proof (cases "body s")
        case (Inl s')
        with unfolded b have "loop body s' = Some r" by simp
        from ih [OF this] keep [OF s Inl] show ?thesis by simp
      next
        case (Inr r')
        with unfolded b have "r' = r" by simp
        with leave [OF s Inr] show ?thesis by simp
      qed
    qed
  qed
  with init show ?thesis by simp
qed

text \<open>
  A loop whose body never leaves from the states of an invariant has no result.
\<close>

lemma while_loop_diverges:
  assumes init: "I s"
    and keep: "\<And>s. I s \<Longrightarrow> \<exists>s'. body s = Inl s' \<and> I s'"
  shows "while_loop body s = None"
proof (cases "while_loop body s")
  case None
  then show ?thesis .
next
  case (Some r)
  have "False"
    by (rule while_loop_rule [where I = I and Q = "\<lambda>_. False", OF Some init])
       (use keep in force)+
  then show ?thesis ..
qed

lemma iterations_invariant:
  assumes init: "I s"
    and keep: "\<And>s s'. I s \<Longrightarrow> body s = Inl s' \<Longrightarrow> I s'"
    and leave: "\<And>s r. I s \<Longrightarrow> body s = Inr r \<Longrightarrow> Q r"
  shows "case iterations body n s of Inl s' \<Rightarrow> I s' | Inr r \<Rightarrow> Q r"
  using init
proof (induction n arbitrary: s)
  case 0
  then show ?case by simp
next
  case (Suc n)
  show ?case
  proof (cases "body s")
    case (Inl s')
    then show ?thesis using Suc.IH [of s'] keep [OF Suc.prems Inl] by simp
  next
    case (Inr r)
    then show ?thesis using leave [OF Suc.prems Inr] by simp
  qed
qed

text \<open>
  The two views of the loop agree: it returns \<open>r\<close> iff some number of rounds ends in \<open>r\<close>.
\<close>

lemma iterations_leave_while_loop:
  "iterations body n s = Inr r \<Longrightarrow> while_loop body s = Some r"
proof (induction n arbitrary: s)
  case 0
  then show ?case by simp
next
  case (Suc n)
  then show ?case
    by (cases "body s") (simp_all add: while_loop_continue while_loop_leave)
qed

lemma while_loop_leave_iterations:
  assumes "while_loop body s = Some r"
  shows "\<exists>n. iterations body n s = Inr r"
proof (rule while_loop.raw_induct
    [where P = "\<lambda>b s r. \<exists>n. iterations b n s = Inr r", OF _ assms])
  fix loop b s r
  assume ih: "\<And>b s r. loop b s = Some r \<Longrightarrow> \<exists>n. iterations b n s = Inr r"
    and unfolded: "(case b s of Inl s' \<Rightarrow> loop b s' | Inr r \<Rightarrow> Some r) = Some r"
  show "\<exists>n. iterations b n s = Inr r"
  proof (cases "b s")
    case (Inl s')
    with unfolded have "loop b s' = Some r" by simp
    from ih [OF this] obtain n where "iterations b n s' = Inr r" ..
    with Inl have "iterations b (Suc n) s = Inr r" by simp
    then show ?thesis ..
  next
    case (Inr r')
    with unfolded have "iterations b (Suc 0) s = Inr r" by simp
    then show ?thesis ..
  qed
qed

section \<open>Heap, system call and byte lemmas\<close>

lemma fresh_upper: "k \<in> fst ` set h \<Longrightarrow> k \<le> foldr max (map fst h) (0::nat)"
proof (induction h)
  case Nil
  then show ?case by simp
next
  case (Cons e h)
  then show ?case by (cases "k = fst e") (auto simp: max_def)
qed

lemma fresh_notin: "fresh h \<notin> fst ` set h"
  using fresh_upper [of "fresh h" h] by (auto simp: fresh_def)

lemma ownsI: "p \<notin> fst ` set h0 \<Longrightarrow> heap w = (p, blk) # h0 \<Longrightarrow> buffer s = p \<Longrightarrow> env s = w \<Longrightarrow> owns h0 s \<and> block s = blk"
  by (simp add: owns_def block_def)

lemma store_head:
  "heap w = (p, blk) # h \<Longrightarrow>
   store p i bs w =
     (if i + length bs \<le> length blk
      then Some (w\<lparr>heap := (p, take i blk @ bs @ drop (i + length bs) blk) # h\<rparr>)
      else None)"
  by (simp add: store_def)

lemma load_head:
  "heap w = (p, blk) # h \<Longrightarrow> load p i w = (if i < length blk then Some (blk ! i) else None)"
  by (simp add: load_def)

lemma free_head:
  "heap w = (p, blk) # h \<Longrightarrow> p \<notin> fst ` set h \<Longrightarrow>
   free p w = Some (w\<lparr>heap := h, trace := trace w @ [Free]\<rparr>)"
  by (simp add: free_def AList.delete_id)

lemma realloc_head:
  "heap w = (p, blk) # h \<Longrightarrow> p \<notin> fst ` set h \<Longrightarrow>
   realloc p n w =
     Some (if alloc_fails w
           then (None, w\<lparr>allocs := tl (allocs w), trace := trace w @ [Realloc n]\<rparr>)
           else (Some (fresh h),
                 w\<lparr>allocs := tl (allocs w), trace := trace w @ [Realloc n],
                   heap := (fresh h, take n blk @ map (uninit w) [length blk..<n]) # h\<rparr>))"
  by (simp add: realloc_def AList.delete_id Let_def)

lemma give_up_head:
  "heap w = (p, blk) # h \<Longrightarrow> p \<notin> fst ` set h \<Longrightarrow>
   give_up p w = Inr (Return None (w\<lparr>heap := h, trace := trace w @ [Free]\<rparr>))"
  by (simp add: give_up_def free_head)

lemma terminate_at_head:
  "heap w = (p, blk) # h \<Longrightarrow>
   terminate_at p i w =
     (if i < length blk
      then Inr (Return (Some p) (w\<lparr>heap := (p, take i blk @ 0 # drop (Suc i) blk) # h\<rparr>))
      else Inr Fault)"
  by (auto simp add: terminate_at_def store_head)

lemma start_line_cases:
  "start_line cfg w =
     (if alloc_fails w
      then Inr (Return None (w\<lparr>allocs := tl (allocs w), trace := trace w @ [Malloc (chunk cfg + 1)]\<rparr>))
      else Inl \<lparr>buffer = fresh (heap w), written = 0, length' = 0,
                env = w\<lparr>allocs := tl (allocs w), trace := trace w @ [Malloc (chunk cfg + 1)],
                        heap := (fresh (heap w), map (uninit w) [0..<chunk cfg + 1]) # heap w\<rparr>\<rparr>)"
  by (simp add: start_line_def malloc_def Let_def)

lemma grow_owned:
  assumes "owns h0 s"
  shows "grow cfg s =
     (if written s = chunk cfg then
        (if alloc_fails (env s)
         then Inr (Return None ((env s)\<lparr>allocs := tl (allocs (env s)),
                 trace := trace (env s) @ [Realloc (chunk cfg + length' s + 1), Free], heap := h0\<rparr>))
         else Inl (grown cfg h0 s))
      else Inl s)"
proof -
  from assms have h: "heap (env s) = (buffer s, block s) # h0" and n: "buffer s \<notin> fst ` set h0"
    by (simp_all add: owns_def)
  show ?thesis
    unfolding grow_def realloc_head [OF h n] grown_def
    by (simp add: give_up_head [where blk = "block s" and h = h0] h n)
qed

lemma grown_owned:
  "owns h0 (grown cfg h0 s)"
  "block (grown cfg h0 s) = take (chunk cfg + length' s + 1) (block s)
      @ map (uninit (env s)) [length (block s)..<chunk cfg + length' s + 1]"
  "length' (grown cfg h0 s) = length' s" "written (grown cfg h0 s) = 0"
proof -
  have "owns h0 (grown cfg h0 s) \<and> block (grown cfg h0 s) = take (chunk cfg + length' s + 1) (block s)
      @ map (uninit (env s)) [length (block s)..<chunk cfg + length' s + 1]"
    by (rule ownsI [OF fresh_notin]) (simp_all add: grown_def)
  then show "owns h0 (grown cfg h0 s)" 
    "block (grown cfg h0 s) = take (chunk cfg + length' s + 1) (block s)
      @ map (uninit (env s)) [length (block s)..<chunk cfg + length' s + 1]" by simp_all
qed (simp_all add: grown_def)

lemma grown_capacity: "capacity (grown cfg h0 s) = chunk cfg + length' s + 1"
  by (auto simp: capacity_def grown_owned(2))

lemma fread_line_frame:
  assumes "fread_line size' w = (n, d, w')"
  shows "heap w' = heap w" "uninit w' = uninit w" "allocs w' = allocs w"
    "reads w' = tl (reads w)" "trace w' = trace w @ [Read size']"
  using assms by (auto simp: fread_line_def Let_def split: if_splits)

lemma fread_line_data:
  assumes "fread_line size' w = (n, d, w')"
  shows "if read_fails w then n = - 1 \<and> d = [] \<and> stdin w' = stdin w
         else n = int (length d) \<and> d = take (granted size' w) (stdin w)
              \<and> stdin w' = drop (granted size' w) (stdin w)"
  using assms by (auto simp: fread_line_def Let_def min_def split: if_splits)

lemma granted_le: "granted size' w \<le> size'"
  by (simp add: granted_def split: list.splits read_outcome.splits)

lemma granted_one: "granted (Suc 0) w = Suc 0"
  by (simp add: granted_def split: list.splits read_outcome.splits)

lemma no_alloc_fails: "False \<notin> set (allocs w) \<Longrightarrow> \<not> alloc_fails w"
  by (cases "allocs w") (auto simp: alloc_fails_def)

lemma no_read_fails: "Fails \<notin> set (reads w) \<Longrightarrow> \<not> read_fails w"
  by (cases "reads w") (auto simp: read_fails_def)

lemma size_sub_le: "b \<le> a \<Longrightarrow> size_sub a b \<le> a - b"
proof -
  assume "b \<le> a"
  then have "(int a - int b) mod 2 ^ 64 \<le> int a - int b"
    by (intro zmod_le_nonneg_dividend) simp
  then show ?thesis by (simp add: size_sub_def)
qed

lemma size_sub_exact: "b \<le> a \<Longrightarrow> a < 2 ^ 64 \<Longrightarrow> size_sub a b = a - b"
  by (simp add: size_sub_def nat_diff_distrib' of_nat_diff)

lemma size_sub_self: "size_sub a a = 0"
  by (simp add: size_sub_def)

lemma size_sub_zero_le: "size_sub a 0 \<le> a"
  using size_sub_le [of 0 a] by simp

lemma c_string_terminated:
  assumes "0 \<notin> set xs"
  shows "c_string (xs @ 0 # ys) = xs"
proof -
  have "takeWhile (\<lambda>b. b \<noteq> 0) (xs @ 0 # ys) = takeWhile (\<lambda>b. b \<noteq> (0::byte)) xs"
    by (rule takeWhile_tail) simp
  also have "\<dots> = xs" using assms by (auto simp: takeWhile_eq_all_conv)
  finally show ?thesis by (simp add: c_string_def)
qed

lemma c_string_prefix:
  assumes "take (Suc (length xs)) blk = xs @ [0]" "0 \<notin> set xs"
  shows "c_string blk = xs"
proof -
  have "blk = take (Suc (length xs)) blk @ drop (Suc (length xs)) blk" by simp
  also have "\<dots> = xs @ 0 # drop (Suc (length xs)) blk" using assms(1) by simp
  finally have "c_string blk = c_string (xs @ 0 # drop (Suc (length xs)) blk)" by simp
  then show ?thesis using c_string_terminated [OF assms(2)] by simp
qed

lemma sint_minus_one: "sint (c :: byte) = - 1 \<longleftrightarrow> c = 255"
proof
  assume "sint c = - 1"
  then have "word_of_int (sint c) = (word_of_int (- 1) :: byte)" by simp
  then show "c = 255" by simp
qed simp

lemma uint_not_minus_one: "uint (c :: byte) \<noteq> - 1"
  using uint_ge_0 [of c] by linarith

text \<open>
  Which bytes end a line. Where \<^verbatim>\<open>char\<close> is signed, the byte \<open>0xFF\<close> compares equal to
  \<^verbatim>\<open>EOF\<close>; where it is unsigned, no byte does. A newline never ends \<^verbatim>\<open>raw_read_line\<close>.
\<close>

lemma line_stop_iff:
  "line_stop cfg c \<longleftrightarrow> c = 10 \<or> (char_signed cfg \<and> c = 255)"
  by (auto simp: line_stop_def char_to_int_def EOF_def sint_minus_one uint_not_minus_one)

lemma raw_stop_iff:
  "raw_stop cfg c \<longleftrightarrow> c = 0 \<or> (char_signed cfg \<and> c = 255)"
  by (auto simp: raw_stop_def char_to_int_def EOF_def sint_minus_one uint_not_minus_one)

lemma raw_stop_newline: "\<not> raw_stop cfg 10"
  by (simp add: raw_stop_def char_to_int_def EOF_def)

section \<open>Invariants of the two loops\<close>

lemma clean_give_up:
  assumes "heap w = (p, blk) # h0" "p \<notin> fst ` set h0" "give_up p w = Inr r"
  shows "clean h0 r"
  using assms by (auto simp: give_up_head clean_def)

lemma clean_terminate_at:
  assumes "heap w = (p, blk) # h0" "p \<notin> fst ` set h0" "i < length blk" 
  shows "\<exists>r. terminate_at p i w = Inr r \<and> clean h0 r"
  using assms by (simp add: terminate_at_head clean_def)

lemma clean_no_fault: "clean h0 r \<Longrightarrow> r \<noteq> Fault"
  by (auto simp: clean_def)

lemma line_end_owned:
  assumes o: "owns h0 s" and b: "length' s \<le> capacity s"
  shows "case line_end cfg s of Inl s' \<Rightarrow> s' = s | Inr r \<Rightarrow> clean h0 r"
proof -
  from o have h: "heap (env s) = (buffer s, block s) # h0" and n: "buffer s \<notin> fst ` set h0"
    by (simp_all add: owns_def)
  show ?thesis
  proof (cases "length' s > 0")
    case False
    then show ?thesis by (simp add: line_end_def)
  next
    case True
    with b have i: "length' s - 1 < length (block s)" by (simp add: capacity_def)
    from clean_terminate_at [OF h n i] obtain r
      where "terminate_at (buffer s) (length' s - 1) (env s) = Inr r" "clean h0 r" by blast
    then show ?thesis using True i
      by (simp add: line_end_def load_head [OF h])
  qed
qed

lemma fill_owned:
  assumes o: "owns h0 s" and b: "length' s + size_sub (chunk cfg) (length' s) < capacity s"
  shows "case fill cfg s of
           Inl s' \<Rightarrow> owns h0 s' \<and> capacity s' = capacity s
                    \<and> (if written s = 0
                        then \<exists>k. 0 < k \<and> k \<le> size_sub (chunk cfg) (length' s)
                               \<and> written s' = k \<and> length' s' = length' s + k
                        else s' = s)
         | Inr r \<Rightarrow> clean h0 r"
proof (cases "written s = 0")
  case False
  then show ?thesis using o by (simp add: fill_def)
next
  case True
  from o have h: "heap (env s) = (buffer s, block s) # h0" and n: "buffer s \<notin> fst ` set h0"
    by (simp_all add: owns_def)
  obtain m d w where f: "fread_line (size_sub (chunk cfg) (length' s)) (env s) = (m, d, w)"
    by (cases "fread_line (size_sub (chunk cfg) (length' s)) (env s)")
  have hw: "heap w = (buffer s, block s) # h0" using fread_line_frame(1) [OF f] h by simp
  show ?thesis
  proof (cases "read_fails (env s)")
    case True
    with fread_line_data [OF f] have "m = - 1" by simp
    then have "fill cfg s = give_up (buffer s) w" using \<open>written s = 0\<close> f by (simp add: fill_def)
    then show ?thesis by (simp add: give_up_head [OF hw n] clean_def)
  next
    case False
    with fread_line_data [OF f]
    have m: "m = int (length d)" and d: "d = take (granted (size_sub (chunk cfg) (length' s)) (env s)) (stdin (env s))"
      by simp_all
    from d have dl: "length d \<le> size_sub (chunk cfg) (length' s)"
      using granted_le [of "size_sub (chunk cfg) (length' s)" "env s"] by simp
    with b have fit: "length' s + length d \<le> length (block s)" by (simp add: capacity_def)
    let ?blk = "take (length' s) (block s) @ d @ drop (length' s + length d) (block s)"
    let ?w = "w\<lparr>heap := (buffer s, ?blk) # h0\<rparr>"
    have st: "store (buffer s) (length' s) d w = Some ?w"
      using fit by (simp add: store_head [OF hw])
    have hw': "heap ?w = (buffer s, ?blk) # h0" by simp
    have lb: "length ?blk = length (block s)" using fit by simp
    show ?thesis
    proof (cases "d = []")
      case True
      with b have "length' s < length ?blk" by (simp add: capacity_def)
      from clean_terminate_at [OF hw' n this] obtain r
        where "terminate_at (buffer s) (length' s) ?w = Inr r" "clean h0 r" by blast
      then show ?thesis using \<open>written s = 0\<close> f m st True by (simp add: fill_def)
    next
      case False
      let ?s = "s\<lparr>written := written s + nat m, length' := length' s + nat m, env := ?w\<rparr>"
      have "fill cfg s = Inl ?s"
        using \<open>written s = 0\<close> f m st False by (simp add: fill_def)
      moreover have "owns h0 ?s \<and> block ?s = ?blk"
        by (rule ownsI [OF n hw']) simp_all
      ultimately show ?thesis
        using \<open>written s = 0\<close> m dl lb False by (simp add: capacity_def)
    qed
  qed
qed

lemma start_line_inv:
  "case start_line cfg w of
     Inl s \<Rightarrow> rl_inv cfg (heap w) s \<and> rrl_inv cfg (heap w) s
   | Inr r \<Rightarrow> clean (heap w) r"
proof (cases "alloc_fails w")
  case True
  then show ?thesis by (simp add: start_line_cases clean_def)
next
  case False
  let ?s = "\<lparr>buffer = fresh (heap w), written = 0, length' = 0,
                env = w\<lparr>allocs := tl (allocs w), trace := trace w @ [Malloc (chunk cfg + 1)],
                        heap := (fresh (heap w), map (uninit w) [0..<chunk cfg + 1]) # heap w\<rparr>\<rparr>"
  have "owns (heap w) ?s \<and> block ?s = map (uninit w) [0..<chunk cfg + 1]"
    by (rule ownsI [OF fresh_notin]) simp_all
  then show ?thesis using False
    by (simp add: start_line_cases rl_inv_def rrl_inv_def capacity_def)
qed

lemma read_line_body_inv:
  assumes inv: "rl_inv cfg h0 s"
  shows "case read_line_body cfg s of Inl s' \<Rightarrow> rl_inv cfg h0 s' | Inr r \<Rightarrow> clean h0 r"
proof -
  from inv have o: "owns h0 s" and wl: "written s = length' s" and lc: "length' s \<le> chunk cfg"
    and cap: "capacity s = chunk cfg + 1" by (simp_all add: rl_inv_def)
  from o have h: "heap (env s) = (buffer s, block s) # h0" and n: "buffer s \<notin> fst ` set h0"
    by (simp_all add: owns_def)
  show ?thesis
  proof (cases "written s = chunk cfg")
    case full: True
    show ?thesis
    proof (cases "alloc_fails (env s)")
      case True
      then show ?thesis using full by (simp add: read_line_body_def grow_owned [OF o] clean_def)
    next
      case False
      define s1 where "s1 = grown cfg h0 s"
      have g: "grow cfg s = Inl s1" using full False by (simp add: grow_owned [OF o] s1_def)
      have o1: "owns h0 s1" and c1: "capacity s1 = chunk cfg + length' s + 1"
        unfolding s1_def by (rule grown_owned grown_capacity)+
      have l1: "length' s1 = chunk cfg" "written s1 = 0" using full wl by (simp_all add: s1_def grown_owned)
      have "length' s1 + size_sub (chunk cfg) (length' s1) < capacity s1"
        using c1 l1 full wl by (simp add: size_sub_self)
      from fill_owned [OF o1 this] l1 have "case fill cfg s1 of Inl s' \<Rightarrow> False | Inr r \<Rightarrow> clean h0 r"
        by (auto simp: size_sub_self split: sum.splits)
      then show ?thesis using g by (auto simp: read_line_body_def split: sum.splits)
    qed
  next
    case part: False
    then have g: "grow cfg s = Inl s" by (simp add: grow_def)
    have "length' s + size_sub (chunk cfg) (length' s) < capacity s"
      using size_sub_le [OF lc] cap lc by simp
    note f = fill_owned [OF o this]
    show ?thesis
    proof (cases "fill cfg s")
      case (Inr r)
      with f g show ?thesis by (simp add: read_line_body_def)
    next
      case (Inl s2)
      with f have o2: "owns h0 s2" and c2: "capacity s2 = capacity s"
        and k: "if written s = 0
                then \<exists>k. 0 < k \<and> k \<le> size_sub (chunk cfg) (length' s) \<and> written s2 = k \<and> length' s2 = length' s + k
                else s2 = s" by simp_all
      have i2: "rl_inv cfg h0 s2"
      proof (cases "written s = 0")
        case True
        with k wl obtain k where "k \<le> size_sub (chunk cfg) 0" "written s2 = k" "length' s2 = k" by auto
        with size_sub_zero_le [of "chunk cfg"] have "written s2 = length' s2" "length' s2 \<le> chunk cfg" by simp_all
        then show ?thesis using o2 c2 cap by (simp add: rl_inv_def)
      next
        case False
        with k inv show ?thesis by simp
      qed
      then have "length' s2 \<le> capacity s2" by (simp add: rl_inv_def)
      from line_end_owned [OF o2 this, of cfg] i2 g Inl show ?thesis
        by (auto simp: read_line_body_def split: sum.splits)
    qed
  qed
qed

lemma raw_read_line_body_inv:
  assumes inv: "rrl_inv cfg h0 s" and pos: "0 < chunk cfg"
  shows "case raw_read_line_body cfg s of Inl s' \<Rightarrow> rrl_inv cfg h0 s' | Inr r \<Rightarrow> clean h0 r"
proof -
  from inv have o: "owns h0 s" by (simp add: rrl_inv_def)
  show ?thesis
  proof (cases "grow cfg s")
    case (Inr r)
    then have "clean h0 r" using grow_owned [OF o, of cfg] by (auto simp: clean_def split: if_splits)
    with Inr show ?thesis by (simp add: raw_read_line_body_def)
  next
    case (Inl s1)
    have i1: "rrl_inv cfg h0 s1 \<and> written s1 < chunk cfg"
    proof (cases "written s = chunk cfg")
      case True
      with Inl grow_owned [OF o, of cfg] pos show ?thesis
        by (auto simp: rrl_inv_def grown_owned grown_capacity split: if_splits)
    next
      case False
      with Inl have "s1 = s" by (simp add: grow_def)
      with inv False show ?thesis by (simp add: rrl_inv_def)
    qed
    then have o1: "owns h0 s1" and w1: "written s1 < chunk cfg" "written s1 \<le> length' s1"
      and c1: "capacity s1 = length' s1 - written s1 + chunk cfg + 1" by (simp_all add: rrl_inv_def)
    from o1 have h: "heap (env s1) = (buffer s1, block s1) # h0" and n: "buffer s1 \<notin> fst ` set h0"
      by (simp_all add: owns_def)
    obtain m d w where f: "fread_line 1 (env s1) = (m, d, w)" by (cases "fread_line 1 (env s1)")
    have hw: "heap w = (buffer s1, block s1) # h0" using fread_line_frame(1) [OF f] h by simp
    have fit: "length' s1 < length (block s1)" using c1 w1 by (simp add: capacity_def)
    define c where "c = (case d of [] \<Rightarrow> uninit w (length' s1) | b # _ \<Rightarrow> b)"
    let ?blk = "take (length' s1) (block s1) @ [c] @ drop (length' s1 + 1) (block s1)"
    let ?w = "w\<lparr>heap := (buffer s1, ?blk) # h0\<rparr>"
    let ?s = "s1\<lparr>written := written s1 + 1, length' := length' s1 + 1, env := ?w\<rparr>"
    have body: "raw_read_line_body cfg s =
      (if m = - 1 then give_up (buffer s1) w
       else if raw_stop cfg c then terminate_at (buffer s1) (length' s1) w
       else Inl ?s)"
      using Inl f fit by (simp add: raw_read_line_body_def c_def store_head [OF hw])
    have "owns h0 ?s \<and> block ?s = ?blk" by (rule ownsI [OF n]) simp_all
    then have "rrl_inv cfg h0 ?s" using w1 c1 fit by (simp add: rrl_inv_def capacity_def)
    moreover from clean_terminate_at [OF hw n fit] obtain r
      where "terminate_at (buffer s1) (length' s1) w = Inr r" "clean h0 r" by blast
    ultimately show ?thesis unfolding body
      by (simp add: give_up_head [OF hw n] clean_def)
  qed
qed


lemma has_room_Inl: "has_room (Inl s) \<longleftrightarrow> length' s + 1 \<le> capacity s"
  by (simp add: has_room_def)

lemma has_room_Inr: "has_room (Inr r) \<longleftrightarrow> r \<noteq> Fault"
  by (cases r) (simp_all add: has_room_def)

lemma rl_inv_room: "rl_inv cfg h0 s \<Longrightarrow> length' s + 1 \<le> capacity s"
  by (simp add: rl_inv_def)

lemma rrl_inv_room: "rrl_inv cfg h0 s \<Longrightarrow> length' s + 1 \<le> capacity s"
  by (auto simp: rrl_inv_def)



lemma read_line_progress_room: "has_room (read_line_progress cfg n w)"
proof (cases "start_line cfg w")
  case (Inr r)
  with start_line_inv [of cfg w] show ?thesis
    by (auto simp: read_line_progress_def has_room_Inr dest: clean_no_fault)
next
  case (Inl s)
  with start_line_inv [of cfg w] have init: "rl_inv cfg (heap w) s" by simp
  have "case iterations (read_line_body cfg) n s of
          Inl s' \<Rightarrow> rl_inv cfg (heap w) s' | Inr r \<Rightarrow> clean (heap w) r"
  proof (rule iterations_invariant [where I = "rl_inv cfg (heap w)", OF init])
    fix s s' assume "rl_inv cfg (heap w) s" "read_line_body cfg s = Inl s'"
    then show "rl_inv cfg (heap w) s'" using read_line_body_inv [of cfg "heap w" s] by simp
  next
    fix s r assume "rl_inv cfg (heap w) s" "read_line_body cfg s = Inr r"
    then show "clean (heap w) r" using read_line_body_inv [of cfg "heap w" s] by simp
  qed
  then show ?thesis using Inl
    by (auto simp: read_line_progress_def has_room_Inl has_room_Inr split: sum.splits
          dest: clean_no_fault rl_inv_room)
qed

lemma raw_read_line_progress_room:
  assumes pos: "0 < chunk cfg"
  shows "has_room (raw_read_line_progress cfg n w)"
proof (cases "start_line cfg w")
  case (Inr r)
  with start_line_inv [of cfg w] show ?thesis
    by (auto simp: raw_read_line_progress_def has_room_Inr dest: clean_no_fault)
next
  case (Inl s)
  with start_line_inv [of cfg w] have init: "rrl_inv cfg (heap w) s" by simp
  have "case iterations (raw_read_line_body cfg) n s of
          Inl s' \<Rightarrow> rrl_inv cfg (heap w) s' | Inr r \<Rightarrow> clean (heap w) r"
  proof (rule iterations_invariant [where I = "rrl_inv cfg (heap w)", OF init])
    fix s s' assume "rrl_inv cfg (heap w) s" "raw_read_line_body cfg s = Inl s'"
    then show "rrl_inv cfg (heap w) s'"
      using raw_read_line_body_inv [OF _ pos, of "heap w" s] by simp
  next
    fix s r assume "rrl_inv cfg (heap w) s" "raw_read_line_body cfg s = Inr r"
    then show "clean (heap w) r" using raw_read_line_body_inv [OF _ pos, of "heap w" s] by simp
  qed
  then show ?thesis using Inl
    by (auto simp: raw_read_line_progress_def has_room_Inl has_room_Inr split: sum.splits
          dest: clean_no_fault rrl_inv_room)
qed

lemma read_line_progress_iff:
  "read_line cfg w = Some r \<longleftrightarrow> (\<exists>n. read_line_progress cfg n w = Inr r)"
  by (cases "start_line cfg w")
    (auto simp: read_line_def read_line_progress_def
      dest: while_loop_leave_iterations iterations_leave_while_loop)

lemma raw_read_line_progress_iff:
  "raw_read_line cfg w = Some r \<longleftrightarrow> (\<exists>n. raw_read_line_progress cfg n w = Inr r)"
  by (cases "start_line cfg w")
    (auto simp: raw_read_line_def raw_read_line_progress_def
      dest: while_loop_leave_iterations iterations_leave_while_loop)

section \<open>Memory\<close>



text \<open>
  C9. Throughout every execution of \<^verbatim>\<open>read_line\<close> and \<^verbatim>\<open>raw_read_line\<close> the buffer keeps
  room for the terminator: after any number of rounds of the loop, a call that is still
  running has \<open>capacity \<ge> length + 1\<close>, and a call that has finished did so without an
  access outside its block, so every write of a content byte and of the terminator was
  inside the current allocation. The chunk size is positive.
\<close>

theorem buffer_keeps_room_for_terminator:
  assumes "0 < chunk cfg"
  shows "has_room (read_line_progress cfg n w) \<and> has_room (raw_read_line_progress cfg n w)"
  using read_line_progress_room raw_read_line_progress_room [OF assms] by simp

theorem buffer_keeps_room_for_terminator_witness:
  "0 < chunk default_config
   \<and> has_room (read_line_progress default_config 2 (calm 0 (bytes_of ''hello'')))
   \<and> has_room (raw_read_line_progress default_config 2 (calm 0 (bytes_of ''hello'')))"
proof -
  have h: "0 < chunk default_config" by (simp add: default_config_def)
  from buffer_keeps_room_for_terminator [OF h] h show ?thesis by simp
qed

text \<open>
  The chunk size has to be positive for that: built with a chunk size of 0,
  \<^verbatim>\<open>raw_read_line\<close> reallocates once, to one byte, and from the second byte on writes
  behind its buffer.
\<close>

lemma raw_read_line_zero_chunk_overflows:
  "\<not> has_room (raw_read_line_progress \<lparr>chunk = 0, char_signed = True\<rparr> 1 (calm 0 (bytes_of ''ab'')))
   \<and> \<not> has_room (raw_read_line_progress \<lparr>chunk = 0, char_signed = True\<rparr> 2 (calm 0 (bytes_of ''ab'')))"
  by code_simp

section \<open>What \<^verbatim>\<open>read_line\<close> returns\<close>

lemma line_end_exact:
  assumes o: "owns h0 s" and pos: "0 < length' s" and b: "length' s \<le> capacity s"
  shows "line_end cfg s =
     (if line_stop cfg (block s ! (length' s - 1))
      then Inr (Return (Some (buffer s))
             ((env s)\<lparr>heap := (buffer s, take (length' s - 1) (block s) @ 0 # drop (length' s) (block s)) # h0\<rparr>))
      else Inl s)"
proof -
  from o have h: "heap (env s) = (buffer s, block s) # h0" by (simp add: owns_def)
  from pos b have i: "length' s - 1 < length (block s)" by (simp add: capacity_def)
  show ?thesis using pos i
    by (simp add: line_end_def load_head [OF h] terminate_at_head [OF h] line_stop_def)
qed

text \<open>
  The first round of \<^verbatim>\<open>read_line\<close> when the allocation and the read succeed.
\<close>

lemma read_line_first_round:
  assumes a: "\<not> alloc_fails w" and r: "\<not> read_fails w"
    and c: "0 < chunk cfg" "chunk cfg < 2 ^ 64"
    and d: "d = take (granted (chunk cfg) w) (stdin w)" "d \<noteq> []"
  obtains s0 s1 where "start_line cfg w = Inl s0"
    "read_line_body cfg s0 = line_end cfg s1"
    "rl_inv cfg (heap w) s1"
    "block s1 = d @ drop (length d) (map (uninit w) [0..<chunk cfg + 1])"
    "length' s1 = length d"
    "stdin (env s1) = drop (length d) (stdin w)"
    "reads (env s1) = tl (reads w)" "allocs (env s1) = tl (allocs w)" "uninit (env s1) = uninit w"
    "trace (env s1) = trace w @ [Malloc (chunk cfg + 1), Read (chunk cfg)]"
proof -
  define p where "p = fresh (heap w)"
  define blk0 where "blk0 = map (uninit w) [0..<chunk cfg + 1]"
  define w0 where "w0 = w\<lparr>allocs := tl (allocs w), trace := trace w @ [Malloc (chunk cfg + 1)],
                        heap := (p, blk0) # heap w\<rparr>"
  define s0 where "s0 = \<lparr>buffer = p, written = 0, length' = 0, env = w0\<rparr>"
  define w1 where "w1 = w0\<lparr>reads := tl (reads w), trace := trace w0 @ [Read (chunk cfg)],
                         stdin := drop (length d) (stdin w)\<rparr>"
  define blk1 where "blk1 = d @ drop (length d) blk0"
  define s1 where "s1 = s0\<lparr>written := length d, length' := length d, env := w1\<lparr>heap := (p, blk1) # heap w\<rparr>\<rparr>"
  have st: "start_line cfg w = Inl s0"
    using a by (simp add: start_line_cases s0_def w0_def p_def blk0_def)
  have g: "grow cfg s0 = Inl s0" using c by (simp add: grow_def s0_def)
  have size': "size_sub (chunk cfg) 0 = chunk cfg" using size_sub_exact [of 0 "chunk cfg"] c by simp
  have gr: "granted (chunk cfg) w0 = granted (chunk cfg) w" by (simp add: granted_def w0_def)
  have f: "fread_line (chunk cfg) w0 = (int (length d), d, w1)"
    using r d by (simp add: fread_line_def read_fails_def gr w1_def Let_def) (simp add: w0_def)
  have dl: "length d \<le> chunk cfg" using d granted_le [of "chunk cfg" w] by simp
  have hw1: "heap w1 = (p, blk0) # heap w" by (simp add: w1_def w0_def)
  have store: "store p 0 d w1 = Some (w1\<lparr>heap := (p, blk1) # heap w\<rparr>)"
    using dl by (simp add: store_head [OF hw1] blk0_def blk1_def)
  have fl: "fill cfg s0 = Inl s1"
    using f store d(2) by (simp add: fill_def s0_def size' s1_def)
  have body: "read_line_body cfg s0 = line_end cfg s1"
    by (simp add: read_line_body_def g fl)
  have ob: "owns (heap w) s1 \<and> block s1 = blk1"
    by (rule ownsI [OF fresh_notin [of "heap w"]]) (simp_all add: s1_def s0_def p_def)
  then have inv: "rl_inv cfg (heap w) s1"
    using dl by (simp add: rl_inv_def capacity_def blk1_def blk0_def s1_def)
  show thesis
    by (rule that [OF st body inv])
      (use ob in \<open>simp_all add: blk1_def blk0_def s1_def s0_def w1_def w0_def\<close>)
qed



text \<open>
  A first read that fills the whole chunk without ending in a line end: the buffer is
  grown, the next read asks for \<^verbatim>\<open>SIZE - length\<close>, which is 0 bytes, gets none, and the
  function returns the first chunk only.
\<close>

lemma read_line_full_chunk:
  assumes a: "False \<notin> set (allocs w)" and r: "Fails \<notin> set (reads w)"
    and c: "chunk cfg < 2 ^ 64"
    and d: "d = take (granted (chunk cfg) w) (stdin w)" "d \<noteq> []" "length d = chunk cfg"
    and l: "\<not> line_stop cfg (last d)"
  shows "map_option (take (Suc (chunk cfg))) (returned_block (read_line cfg w)) = Some (d @ [0])
       \<and> map_option stdin (final_world (read_line cfg w)) = Some (drop (chunk cfg) (stdin w))
       \<and> map_option trace (final_world (read_line cfg w))
           = Some (trace w @ [Malloc (chunk cfg + 1), Read (chunk cfg),
                              Realloc (chunk cfg + chunk cfg + 1), Read 0])"
proof -
  from d(2,3) have pos: "0 < chunk cfg" by (cases d) auto
  from read_line_first_round [OF no_alloc_fails [OF a] no_read_fails [OF r] pos c d(1,2)]
  obtain s0 s1 where st: "start_line cfg w = Inl s0"
    and body: "read_line_body cfg s0 = line_end cfg s1"
    and inv: "rl_inv cfg (heap w) s1"
    and blk: "block s1 = d @ drop (length d) (map (uninit w) [0..<chunk cfg + 1])"
    and ln: "length' s1 = length d"
    and e: "stdin (env s1) = drop (length d) (stdin w)" "reads (env s1) = tl (reads w)"
      "allocs (env s1) = tl (allocs w)"
      "trace (env s1) = trace w @ [Malloc (chunk cfg + 1), Read (chunk cfg)]" by metis
  from inv have o: "owns (heap w) s1" and wr: "written s1 = length' s1" and cap: "length' s1 \<le> capacity s1"
    and cp: "capacity s1 = chunk cfg + 1" by (simp_all add: rl_inv_def)
  have lst: "block s1 ! (length d - 1) = last d"
    using d(2) by (simp add: blk nth_append last_conv_nth)
  have le: "line_end cfg s1 = Inl s1"
    using line_end_exact [OF o _ cap, of cfg] d(2) l lst by (simp add: ln)
  have r1: "while_loop (read_line_body cfg) s0 = while_loop (read_line_body cfg) s1"
    using body le by (simp add: while_loop_continue)
  \<comment> \<open>second round\<close>
  have "False \<notin> set (allocs (env s1))" using a e(3) by (cases "allocs w") auto
  then have na: "\<not> alloc_fails (env s1)" by (rule no_alloc_fails)
  have "Fails \<notin> set (reads (env s1))" using r e(2) by (cases "reads w") auto
  then have nr: "\<not> read_fails (env s1)" by (rule no_read_fails)
  define s2 where "s2 = grown cfg (heap w) s1"
  have g: "grow cfg s1 = Inl s2"
    using na wr ln d(3) by (simp add: grow_owned [OF o] s2_def)
  have o2: "owns (heap w) s2" and b2: "block s2 = take (chunk cfg + length' s1 + 1) (block s1)
      @ map (uninit (env s1)) [length (block s1)..<chunk cfg + length' s1 + 1]"
    and l2: "length' s2 = chunk cfg" "written s2 = 0"
    by (simp_all add: s2_def grown_owned ln d(3))
  from o2 have h2: "heap (env s2) = (buffer s2, block s2) # heap w" by (simp add: owns_def)
  have c2: "length (block s2) = chunk cfg + chunk cfg + 1"
    using grown_capacity [of cfg "heap w" s1] by (simp add: s2_def capacity_def ln d(3))
  have e2: "stdin (env s2) = stdin (env s1)" "reads (env s2) = reads (env s1)"
    "trace (env s2) = trace (env s1) @ [Realloc (chunk cfg + chunk cfg + 1)]"
    by (simp_all add: s2_def grown_def ln d(3))
  define w3 where "w3 = (env s2)\<lparr>reads := tl (reads (env s2)), trace := trace (env s2) @ [Read 0]\<rparr>"
  have f: "fread_line 0 (env s2) = (0, [], w3)"
    using nr e2 by (simp add: fread_line_def read_fails_def w3_def Let_def granted_def
        split: list.splits read_outcome.splits)
  have hw3: "heap w3 = (buffer s2, block s2) # heap w" using h2 by (simp add: w3_def)
  have st3: "store (buffer s2) (chunk cfg) [] w3 = Some (w3\<lparr>heap := (buffer s2, block s2) # heap w\<rparr>)"
    using c2 by (simp add: store_head [OF hw3])
  define blk' where "blk' = take (chunk cfg) (block s2) @ 0 # drop (Suc (chunk cfg)) (block s2)"
  define w' where "w' = w3\<lparr>heap := (buffer s2, blk') # heap w\<rparr>"
  have fl: "fill cfg s2 = Inr (Return (Some (buffer s2)) w')"
    using f st3 c2 l2
    by (simp add: fill_def size_sub_self terminate_at_head [where blk = "block s2" and h = "heap w"]
        blk'_def w'_def)
  have "read_line_body cfg s1 = Inr (Return (Some (buffer s2)) w')"
    by (simp add: read_line_body_def g fl)
  then have res: "read_line cfg w = Some (Return (Some (buffer s2)) w')"
    using st r1 by (simp add: read_line_def while_loop_leave)
  have "take (chunk cfg) (block s2) = d"
    using cp by (simp add: b2 blk ln d(3) capacity_def)
  then have tk: "take (Suc (chunk cfg)) blk' = d @ [0]"
    using c2 d(3) by (simp add: blk'_def)
  show ?thesis
    using tk e e2 d(3)
    by (simp add: res returned_block_def final_world_def world_of_def w'_def w3_def)
qed

text \<open>
  C1. The specification has a stream longer than one chunk without a newline returned
  whole, after \<open>\<lceil>L / C\<rceil>\<close> reallocations; with \<open>C = 4\<close> the stream \<open>abcdefghij\<close>
  is to come back whole after 2 reallocations. The code does otherwise: on that input
  \<^verbatim>\<open>read_line\<close> returns \<open>abcd\<close> after a single reallocation and leaves \<open>efghij\<close> unread.
\<close>

theorem read_line_truncates_long_line:
  "returned_line (read_line \<lparr>chunk = 4, char_signed = True\<rparr> (calm 0 (bytes_of ''abcdefghij'')))
     = Some (bytes_of ''abcd'')
   \<and> map_option (realloc_count \<circ> trace)
        (final_world (read_line \<lparr>chunk = 4, char_signed = True\<rparr> (calm 0 (bytes_of ''abcdefghij''))))
     = Some 1
   \<and> map_option stdin
        (final_world (read_line \<lparr>chunk = 4, char_signed = True\<rparr> (calm 0 (bytes_of ''abcdefghij''))))
     = Some (bytes_of ''efghij'')"
  by code_simp

text \<open>
  C4. The specification has every read that \<^verbatim>\<open>read_line\<close> issues ask for
  \<open>C - (length mod C)\<close> bytes. The code asks for \<^verbatim>\<open>SIZE - length\<close>: with \<open>C = 4\<close> and
  the stream \<open>abcdefghij\<close> the first read asks for 4 bytes and the second, at
  \<open>length = 4\<close>, for 0 bytes instead of \<open>4 - (4 mod 4) = 4\<close>.
\<close>

theorem read_line_second_read_asks_for_nothing:
  "map_option (read_sizes \<circ> trace)
     (final_world (read_line \<lparr>chunk = 4, char_signed = True\<rparr> (calm 0 (bytes_of ''abcdefghij''))))
   = Some [4, 0]"
  by code_simp

text \<open>
  C5. The specification has no data byte other than the newline end a line, a byte
  \<open>0xFF\<close> in particular, the end-of-file marker being out of band. Where \<^verbatim>\<open>char\<close> is
  signed the code's comparison of the last byte with \<^verbatim>\<open>EOF\<close> holds for the data byte
  \<open>0xFF\<close>: on the stream \<open>a\<close>, \<open>0xFF\<close> the line ends at that byte and \<open>a\<close> alone is
  returned.
\<close>

theorem read_line_ends_line_at_data_byte_255:
  "line_stop default_config 255
   \<and> returned_line (read_line default_config (calm 0 [97, 255])) = Some [97]
   \<and> map_option stdin (final_world (read_line default_config (calm 0 [97, 255]))) = Some []"
  by code_simp

lemma read_line_body_stuck:
  assumes "written s \<noteq> chunk cfg" "written s \<noteq> 0" "line_end cfg s = Inl s'"
  shows "read_line_body cfg s = Inl s"
proof -
  have "s' = s" using assms(3)
    by (auto simp: line_end_def terminate_at_def split: if_splits option.splits)
  then show ?thesis using assms
    by (simp add: read_line_body_def grow_def fill_def)
qed

text \<open>
  A short first read that does not end in a line end leaves the loop spinning:
  \<^verbatim>\<open>written\<close> is neither 0 nor the chunk size, so no round reallocates, reads or returns.
\<close>

lemma read_line_short_read_diverges:
  assumes a: "\<not> alloc_fails w" and r: "\<not> read_fails w"
    and c: "chunk cfg < 2 ^ 64"
    and d: "d = take (granted (chunk cfg) w) (stdin w)" "d \<noteq> []" "length d < chunk cfg"
    and l: "\<not> line_stop cfg (last d)"
  shows "read_line cfg w = None"
proof -
  from d have pos: "0 < chunk cfg" by simp
  from read_line_first_round [OF a r pos c d(1,2)]
  obtain s0 s1 where st: "start_line cfg w = Inl s0"
    and body: "read_line_body cfg s0 = line_end cfg s1"
    and inv: "rl_inv cfg (heap w) s1"
    and blk: "block s1 = d @ drop (length d) (map (uninit w) [0..<chunk cfg + 1])"
    and ln: "length' s1 = length d" by metis
  from inv have o: "owns (heap w) s1" and wr: "written s1 = length' s1" and cap: "length' s1 \<le> capacity s1"
    by (simp_all add: rl_inv_def)
  have lst: "block s1 ! (length' s1 - 1) = last d"
    using d(2) by (simp add: blk ln nth_append last_conv_nth)
  have le: "line_end cfg s1 = Inl s1"
    using line_end_exact [OF o _ cap, of cfg] d(2) l lst by (simp add: ln)
  have stuck: "read_line_body cfg s1 = Inl s1"
    by (rule read_line_body_stuck [OF _ _ le]) (use wr ln d in simp_all)
  have "while_loop (read_line_body cfg) s1 = None"
    by (rule while_loop_diverges [where I = "\<lambda>s. s = s1"]) (simp_all add: stuck)
  then have "while_loop (read_line_body cfg) s0 = None"
    using while_loop_continue [of "read_line_body cfg" s0 s1] body le by simp
  then show ?thesis by (simp add: read_line_def st)
qed


text \<open>
  C2. The specification has \<^verbatim>\<open>read_line\<close> terminate for every stream and every
  behaviour of the read, also after a short read whose last byte is not a newline, each
  round reallocating, reading or returning. The code does not: when the first read
  hands over \<open>ab\<close> of the stream \<open>abc\<close>, newline, the call never returns; nor does it on
  the stream \<open>ab\<close> that ends without a newline.
\<close>

theorem read_line_spins_after_short_read:
  "read_line default_config ((calm 0 (bytes_of ''abc'' @ [10]))\<lparr>reads := [Short 1]\<rparr>) = None
   \<and> read_line default_config (calm 0 (bytes_of ''ab'')) = None"
proof
  show "read_line default_config ((calm 0 (bytes_of ''abc'' @ [10]))\<lparr>reads := [Short 1]\<rparr>) = None"
    by (rule read_line_short_read_diverges [where d = "bytes_of ''ab''"])
      (simp_all add: calm_def default_config_def alloc_fails_def read_fails_def granted_def
        bytes_of_def line_stop_def char_to_int_def EOF_def)
  show "read_line default_config (calm 0 (bytes_of ''ab'')) = None"
    by (rule read_line_short_read_diverges [where d = "bytes_of ''ab''"])
      (simp_all add: calm_def default_config_def alloc_fails_def read_fails_def granted_def
        bytes_of_def line_stop_def char_to_int_def EOF_def)
qed

section \<open>What \<^verbatim>\<open>raw_read_line\<close> returns\<close>

lemma grow_rrl:
  assumes inv: "rrl_inv cfg h0 s" and pos: "0 < chunk cfg" and a: "\<not> alloc_fails (env s)"
  obtains s1 where "grow cfg s = Inl s1" "rrl_inv cfg h0 s1" "written s1 < chunk cfg"
    "length' s1 = length' s" "take (length' s) (block s1) = take (length' s) (block s)"
    "stdin (env s1) = stdin (env s)" "reads (env s1) = reads (env s)"
    "uninit (env s1) = uninit (env s)" "set (allocs (env s1)) \<subseteq> set (allocs (env s))"
proof (cases "written s = chunk cfg")
  case False
  with inv have "grow cfg s = Inl s" "written s < chunk cfg"
    by (simp_all add: grow_def rrl_inv_def)
  with inv show ?thesis by (intro that [of s]) simp_all
next
  case True
  from inv have o: "owns h0 s" and cap: "length' s < capacity s" by (auto simp: rrl_inv_def)
  have g: "grow cfg s = Inl (grown cfg h0 s)" using True a by (simp add: grow_owned [OF o])
  have i: "rrl_inv cfg h0 (grown cfg h0 s)"
    using pos by (simp add: rrl_inv_def grown_owned grown_capacity)
  have t: "take (length' s) (block (grown cfg h0 s)) = take (length' s) (block s)"
    using cap by (simp add: grown_owned(2) capacity_def)
  have al: "set (allocs (env (grown cfg h0 s))) \<subseteq> set (allocs (env s))"
    by (cases "allocs (env s)") (auto simp: grown_def)
  show ?thesis
    by (rule that [OF g i _ _ t _ _ _ al]) (use pos in \<open>simp_all add: grown_def\<close>)
qed

text \<open>
  One round of \<^verbatim>\<open>raw_read_line\<close> when neither the allocator nor the read fails. The byte
  tested is the next byte of the stream, or, at the end of the stream, whatever the
  uninitialised \<^verbatim>\<open>c\<close> holds.
\<close>

lemma raw_read_line_round:
  assumes inv: "rrl_inv cfg h0 s" and pos: "0 < chunk cfg"
    and a: "\<not> alloc_fails (env s)" and r: "\<not> read_fails (env s)"
    and c: "c = (case stdin (env s) of [] \<Rightarrow> uninit (env s) (length' s) | b # _ \<Rightarrow> b)"
  shows "if raw_stop cfg c
         then \<exists>p w' blk. raw_read_line_body cfg s = Inr (Return (Some p) w')
                \<and> heap w' = (p, blk) # h0
                \<and> take (Suc (length' s)) blk = take (length' s) (block s) @ [0]
                \<and> stdin w' = tl (stdin (env s))
         else \<exists>s'. raw_read_line_body cfg s = Inl s' \<and> rrl_inv cfg h0 s'
                \<and> length' s' = Suc (length' s)
                \<and> take (length' s') (block s') = take (length' s) (block s) @ [c]
                \<and> stdin (env s') = tl (stdin (env s))
                \<and> reads (env s') = tl (reads (env s))
                \<and> set (allocs (env s')) \<subseteq> set (allocs (env s))
                \<and> uninit (env s') = uninit (env s)"
proof -
  from grow_rrl [OF inv pos a] obtain s1 where g: "grow cfg s = Inl s1"
    and i1: "rrl_inv cfg h0 s1" and w1: "written s1 < chunk cfg" and l1: "length' s1 = length' s"
    and t1: "take (length' s) (block s1) = take (length' s) (block s)"
    and e1: "stdin (env s1) = stdin (env s)" "reads (env s1) = reads (env s)"
      "uninit (env s1) = uninit (env s)" "set (allocs (env s1)) \<subseteq> set (allocs (env s))"
    by blast
  from i1 have o1: "owns h0 s1" and c1: "capacity s1 = length' s1 - written s1 + chunk cfg + 1"
    and wl: "written s1 \<le> length' s1" by (simp_all add: rrl_inv_def)
  from o1 have h: "heap (env s1) = (buffer s1, block s1) # h0" and n: "buffer s1 \<notin> fst ` set h0"
    by (simp_all add: owns_def)
  have fit: "length' s1 < length (block s1)" using c1 w1 wl by (simp add: capacity_def)
  define d where "d = take 1 (stdin (env s))"
  define w where "w = (env s1)\<lparr>reads := tl (reads (env s1)), trace := trace (env s1) @ [Read 1],
                       stdin := drop (length d) (stdin (env s))\<rparr>"
  have f: "fread_line 1 (env s1) = (int (length d), d, w)"
    using r e1 by (simp add: fread_line_def read_fails_def granted_one d_def w_def Let_def)
  have hw: "heap w = (buffer s1, block s1) # h0" using h by (simp add: w_def)
  have cd: "(case d of [] \<Rightarrow> uninit w (length' s1) | b # _ \<Rightarrow> b) = c"
    by (cases "stdin (env s)") (simp_all add: c d_def w_def e1 l1)
  have dr: "drop (length d) (stdin (env s)) = tl (stdin (env s))"
    by (cases "stdin (env s)") (simp_all add: d_def)
  define upd where "upd x = take (length' s1) (block s1) @ [x] @ drop (length' s1 + 1) (block s1)" for x
  define s' where "s' = s1\<lparr>written := written s1 + 1, length' := length' s1 + 1,
                env := w\<lparr>heap := (buffer s1, upd c) # h0\<rparr>\<rparr>"
  have body: "raw_read_line_body cfg s =
      (if raw_stop cfg c then terminate_at (buffer s1) (length' s1) w else Inl s')"
    using g f fit cd by (simp add: raw_read_line_body_def store_head [OF hw] raw_stop_def s'_def upd_def)
  have tk: "take (Suc (length' s)) (upd x) = take (length' s) (block s) @ [x]" for x
  proof -
    have "take (Suc (length' s1)) (upd x) = take (length' s1) (block s1) @ [x]"
      using fit by (simp add: upd_def)
    then show ?thesis unfolding l1 t1 .
  qed
  show ?thesis
  proof (cases "raw_stop cfg c")
    case True
    have "terminate_at (buffer s1) (length' s1) w =
        Inr (Return (Some (buffer s1)) (w\<lparr>heap := (buffer s1, upd 0) # h0\<rparr>))"
      using fit by (simp add: terminate_at_head [OF hw] upd_def)
    then show ?thesis using True body dr tk [of 0] by (simp add: w_def)
  next
    case False
    have ob: "owns h0 s' \<and> block s' = upd c"
      by (rule ownsI [OF n]) (simp_all add: s'_def)
    have "length (upd c) = length (block s1)" using fit by (simp add: upd_def)
    then have "rrl_inv cfg h0 s'"
      using ob w1 wl c1 by (simp add: rrl_inv_def capacity_def) (simp add: s'_def)
    moreover have "length' s' = Suc (length' s)" by (simp add: s'_def l1)
    moreover have "take (Suc (length' s)) (block s') = take (length' s) (block s) @ [c]"
      using ob tk [of c] by simp
    moreover have "stdin (env s') = tl (stdin (env s))" "reads (env s') = tl (reads (env s))"
      "set (allocs (env s')) \<subseteq> set (allocs (env s))" "uninit (env s') = uninit (env s)"
      using dr e1 by (simp_all add: s'_def w_def)
    ultimately show ?thesis using False body by simp
  qed
qed

lemma raw_loop_reads_to_stop:
  assumes "rrl_inv cfg h0 s" and pos: "0 < chunk cfg"
    and "stdin (env s) = pre @ t # rest"
    and "\<forall>b\<in>set pre. \<not> raw_stop cfg b" and t: "raw_stop cfg t"
    and "Fails \<notin> set (reads (env s))" and "False \<notin> set (allocs (env s))"
  shows "\<exists>p w' blk. while_loop (raw_read_line_body cfg) s = Some (Return (Some p) w')
           \<and> heap w' = (p, blk) # h0
           \<and> take (Suc (length' s + length pre)) blk = take (length' s) (block s) @ pre @ [0]
           \<and> stdin w' = rest"
  using assms(1,3,4,6,7)
proof (induction pre arbitrary: s)
  case Nil
  from Nil.prems have c: "t = (case stdin (env s) of [] \<Rightarrow> uninit (env s) (length' s) | b # _ \<Rightarrow> b)"
    by simp
  from raw_read_line_round [OF Nil.prems(1) pos no_alloc_fails no_read_fails c] Nil.prems t
  obtain p w' blk where "raw_read_line_body cfg s = Inr (Return (Some p) w')"
    "heap w' = (p, blk) # h0" "take (Suc (length' s)) blk = take (length' s) (block s) @ [0]"
    "stdin w' = rest" by auto
  then show ?case by (auto simp: while_loop_leave)
next
  case (Cons b pre)
  from Cons.prems have c: "b = (case stdin (env s) of [] \<Rightarrow> uninit (env s) (length' s) | b # _ \<Rightarrow> b)"
    and nb: "\<not> raw_stop cfg b" by simp_all
  from raw_read_line_round [OF Cons.prems(1) pos no_alloc_fails no_read_fails c] Cons.prems nb
  obtain s' where step: "raw_read_line_body cfg s = Inl s'" and i: "rrl_inv cfg h0 s'"
    and l: "length' s' = Suc (length' s)"
    and tk: "take (length' s') (block s') = take (length' s) (block s) @ [b]"
    and e: "stdin (env s') = pre @ t # rest" "reads (env s') = tl (reads (env s))"
      "set (allocs (env s')) \<subseteq> set (allocs (env s))" by auto
  have nr: "Fails \<notin> set (reads (env s'))"
    using e(2) Cons.prems(4) by (cases "reads (env s)") auto
  have na: "False \<notin> set (allocs (env s'))" using e(3) Cons.prems(5) by auto
  from Cons.prems(3) have np: "\<forall>b\<in>set pre. \<not> raw_stop cfg b" by simp
  from Cons.IH [OF i e(1) np nr na]
  obtain p w' blk where "while_loop (raw_read_line_body cfg) s' = Some (Return (Some p) w')"
    "heap w' = (p, blk) # h0"
    "take (Suc (length' s' + length pre)) blk = take (length' s') (block s') @ pre @ [0]"
    "stdin w' = rest" by blast
  then show ?case using step l tk by (auto simp: while_loop_continue)
qed

text \<open>
  C8. \<^verbatim>\<open>raw_read_line\<close> stops exactly at the first byte of the stream that is a null byte
  or compares equal to \<^verbatim>\<open>EOF\<close>, and returns the bytes before it: when the stream is
  \<open>pre\<close>, such a byte, \<open>rest\<close>, with no such byte in \<open>pre\<close>, and no read or allocation
  fails, the returned line is \<open>pre\<close>, terminated, and \<open>rest\<close> is left unread. A newline is
  not such a byte: it never ends the line and is stored like any other byte.
\<close>

theorem raw_read_line_stops_at_null_or_eof_byte:
  assumes "0 < chunk cfg"
    and "stdin w = pre @ t # rest"
    and "\<forall>b\<in>set pre. \<not> raw_stop cfg b" and "raw_stop cfg t"
    and "Fails \<notin> set (reads w)" and "False \<notin> set (allocs w)"
  shows "returned_line (raw_read_line cfg w) = Some pre
       \<and> map_option (take (Suc (length pre))) (returned_block (raw_read_line cfg w)) = Some (pre @ [0])
       \<and> map_option stdin (final_world (raw_read_line cfg w)) = Some rest
       \<and> \<not> raw_stop cfg 10"
proof -
  from assms(6) have "\<not> alloc_fails w" by (rule no_alloc_fails)
  then obtain s where st: "start_line cfg w = Inl s"
    and e: "stdin (env s) = stdin w" "reads (env s) = reads w" "allocs (env s) = tl (allocs w)"
    and l: "length' s = 0"
    by (simp add: start_line_cases)
  from st start_line_inv [of cfg w] have i: "rrl_inv cfg (heap w) s" by simp
  have na: "False \<notin> set (allocs (env s))" using e(3) assms(6) by (cases "allocs w") auto
  have se: "stdin (env s) = pre @ t # rest" and nr: "Fails \<notin> set (reads (env s))"
    using e assms(2,5) by simp_all
  from raw_loop_reads_to_stop [OF i assms(1) se assms(3,4) nr na] l
  obtain p w' blk where run: "while_loop (raw_read_line_body cfg) s = Some (Return (Some p) w')"
    and h: "heap w' = (p, blk) # heap w"
    and tk: "take (Suc (length pre)) blk = pre @ [0]" and r: "stdin w' = rest" by auto
  have res: "raw_read_line cfg w = Some (Return (Some p) w')"
    using st run by (simp add: raw_read_line_def)
  have z: "0 \<notin> set pre" using assms(3) by (auto simp: raw_stop_def)
  show ?thesis
    using h tk r c_string_prefix [OF tk z] raw_stop_newline
    by (simp add: res returned_line_def line_of_def returned_block_def final_world_def world_of_def)
qed

theorem raw_read_line_stops_at_null_or_eof_byte_witness:
  "0 < chunk default_config
   \<and> stdin (calm 0 [97, 10, 98, 0, 99]) = [97, 10, 98] @ 0 # [99]
   \<and> \<not> raw_stop default_config 97 \<and> \<not> raw_stop default_config 10
   \<and> \<not> raw_stop default_config 98 \<and> raw_stop default_config 0
   \<and> Fails \<notin> set (reads (calm 0 [97, 10, 98, 0, 99]))
   \<and> False \<notin> set (allocs (calm 0 [97, 10, 98, 0, 99]))
   \<and> returned_line (raw_read_line default_config (calm 0 [97, 10, 98, 0, 99])) = Some [97, 10, 98]
   \<and> map_option stdin (final_world (raw_read_line default_config (calm 0 [97, 10, 98, 0, 99]))) = Some [99]"
proof -
  let ?w = "calm 0 [97, 10, 98, 0, 99]"
  have h: "0 < chunk default_config" "stdin ?w = [97, 10, 98] @ 0 # [99]"
    "\<forall>b\<in>set [97, 10, 98]. \<not> raw_stop default_config b" "raw_stop default_config 0"
    "Fails \<notin> set (reads ?w)" "False \<notin> set (allocs ?w)"
    by (simp_all add: default_config_def calm_def raw_stop_def char_to_int_def EOF_def)
  from raw_read_line_stops_at_null_or_eof_byte [OF h] h show ?thesis by simp
qed

text \<open>
  At the end of a stream without a stopping byte the loop tests the uninitialised
  \<^verbatim>\<open>c\<close>. While that does not hold a stopping byte either, the loop goes on.
\<close>

lemma raw_read_line_exhausted_diverges:
  assumes pos: "0 < chunk cfg"
    and "Fails \<notin> set (reads w)" and "False \<notin> set (allocs w)"
    and "\<forall>b\<in>set (stdin w). \<not> raw_stop cfg b" and "\<forall>i. \<not> raw_stop cfg (uninit w i)"
  shows "raw_read_line cfg w = None"
proof -
  define J where "J s \<longleftrightarrow> rrl_inv cfg (heap w) s \<and> Fails \<notin> set (reads (env s))
      \<and> False \<notin> set (allocs (env s)) \<and> (\<forall>b\<in>set (stdin (env s)). \<not> raw_stop cfg b)
      \<and> (\<forall>i. \<not> raw_stop cfg (uninit (env s) i))" for s
  from assms(3) have "\<not> alloc_fails w" by (rule no_alloc_fails)
  then obtain s where st: "start_line cfg w = Inl s"
    and e: "stdin (env s) = stdin w" "reads (env s) = reads w" "allocs (env s) = tl (allocs w)"
      "uninit (env s) = uninit w"
    by (simp add: start_line_cases)
  from st start_line_inv [of cfg w] have i: "rrl_inv cfg (heap w) s" by simp
  have na: "False \<notin> set (allocs (env s))" using e(3) assms(3) by (cases "allocs w") auto
  have init: "J s" using i na e assms by (simp add: J_def)
  have keep: "\<exists>s'. raw_read_line_body cfg s = Inl s' \<and> J s'" if "J s" for s
  proof -
    define c where "c = (case stdin (env s) of [] \<Rightarrow> uninit (env s) (length' s) | b # _ \<Rightarrow> b)"
    from that have j: "rrl_inv cfg (heap w) s" "Fails \<notin> set (reads (env s))"
      "False \<notin> set (allocs (env s))" "\<forall>b\<in>set (stdin (env s)). \<not> raw_stop cfg b"
      "\<forall>i. \<not> raw_stop cfg (uninit (env s) i)" by (simp_all add: J_def)
    have nc: "\<not> raw_stop cfg c" using j(4,5) by (cases "stdin (env s)") (simp_all add: c_def)
    from raw_read_line_round [OF j(1) pos no_alloc_fails [OF j(3)] no_read_fails [OF j(2)] c_def] nc
    obtain s' where step: "raw_read_line_body cfg s = Inl s'" and i': "rrl_inv cfg (heap w) s'"
      and e': "stdin (env s') = tl (stdin (env s))" "reads (env s') = tl (reads (env s))"
        "set (allocs (env s')) \<subseteq> set (allocs (env s))" "uninit (env s') = uninit (env s)"
      by auto
    have "Fails \<notin> set (reads (env s'))" using e'(2) j(2) by (cases "reads (env s)") auto
    moreover have "False \<notin> set (allocs (env s'))" using e'(3) j(3) by auto
    moreover have "\<forall>b\<in>set (stdin (env s')). \<not> raw_stop cfg b"
      using e'(1) j(4) by (cases "stdin (env s)") auto
    ultimately have "J s'" using i' e'(4) j(5) by (simp add: J_def)
    with step show ?thesis by blast
  qed
  have "while_loop (raw_read_line_body cfg) s = None"
    by (rule while_loop_diverges [where I = J, OF init keep])
  then show ?thesis by (simp add: raw_read_line_def st)
qed

text \<open>
  C6. The specification has \<^verbatim>\<open>raw_read_line\<close> terminate on every finite stream, writing
  the terminator and returning the buffer when the stream is exhausted. The code never
  looks at a read of zero bytes: on the stream \<open>a\<close>, with \<^verbatim>\<open>c\<close> still holding \<open>a\<close> after
  the end of the stream, the call never returns.
\<close>

theorem raw_read_line_spins_at_end_of_stream:
  "raw_read_line default_config (calm 97 (bytes_of ''a'')) = None"
  by (rule raw_read_line_exhausted_diverges)
    (simp_all add: default_config_def calm_def bytes_of_def raw_stop_def char_to_int_def EOF_def)

section \<open>\<^verbatim>\<open>read_char\<close>\<close>

lemma read_char_value:
  "fst (read_char w) = (if read_fails w \<or> stdin w = [] then 0 else hd (stdin w))"
  by (cases "stdin w")
    (auto simp: read_char_def fread_line_def read_fails_def granted_def Let_def
          split: list.splits read_outcome.splits)

lemma read_char_world:
  "stdin (snd (read_char w)) = (if read_fails w then stdin w else tl (stdin w))"
  "reads (snd (read_char w)) = tl (reads w)"
  by (cases "stdin w"; auto simp: read_char_def fread_line_def read_fails_def granted_def Let_def
          split: list.splits read_outcome.splits)+

lemma read_chars_stream:
  "Fails \<notin> set (reads w) \<Longrightarrow>
   fst (read_chars n w) = take n (stdin w) @ replicate (n - length (stdin w)) 0"
proof (induction n arbitrary: w)
  case 0
  then show ?case by simp
next
  case (Suc n)
  obtain c w' where r: "read_char w = (c, w')" by (cases "read_char w")
  have nf: "\<not> read_fails w"
    using Suc.prems by (auto simp: read_fails_def split: list.splits)
  have c: "c = (if stdin w = [] then 0 else hd (stdin w))"
    using read_char_value [of w] r nf by simp
  have s: "stdin w' = tl (stdin w)" using read_char_world(1) [of w] r nf by simp
  have "reads w' = tl (reads w)" using read_char_world(2) [of w] r by simp
  then have "Fails \<notin> set (reads w')" using Suc.prems by (cases "reads w") auto
  then have ih: "fst (read_chars n w') = take n (stdin w') @ replicate (n - length (stdin w')) 0"
    by (rule Suc.IH)
  show ?case
  proof (cases "stdin w")
    case Nil
    then show ?thesis using r c s ih by (simp add: split_def)
  next
    case (Cons b bs)
    then show ?thesis using r c s ih by (simp add: split_def)
  qed
qed

text \<open>
  C10. \<^verbatim>\<open>read_char\<close> returns the first byte of the stream when the read hands one over,
  and the zero byte when the read fails or the stream is exhausted; the byte it returned
  is consumed. Hence, when no read fails, \<open>n\<close> calls in a row return the bytes of the
  stream in order and, once the stream is exhausted, zero bytes.
\<close>

theorem read_char_returns_stream_then_zero:
  "fst (read_char w) = (if read_fails w \<or> stdin w = [] then 0 else hd (stdin w))
   \<and> stdin (snd (read_char w)) = (if read_fails w then stdin w else tl (stdin w))
   \<and> (Fails \<notin> set (reads w) \<longrightarrow>
        fst (read_chars n w) = take n (stdin w) @ replicate (n - length (stdin w)) 0)"
  using read_char_value [of w] read_char_world(1) [of w] read_chars_stream [of w n]
  by blast

theorem read_char_returns_stream_then_zero_witness:
  "Fails \<notin> set (reads (calm 0 (bytes_of ''ok'')))
   \<and> fst (read_char (calm 0 (bytes_of ''ok''))) = 111
   \<and> fst (read_chars 4 (calm 0 (bytes_of ''ok''))) = [111, 107, 0, 0]"
  using read_char_returns_stream_then_zero [of "calm 0 (bytes_of ''ok'')" 4]
  by (simp add: calm_def bytes_of_def read_fails_def numeral_2_eq_2)

end
